theory Spec2Isabelle
  imports Main "HOL-Library.Word"
begin

section \<open>Values of the chain\<close>

text \<open>
  Solidity's \<open>bytes32\<close> and \<open>uint256\<close> are 256-bit words, \<open>address\<close> is a 160-bit
  word. \<open>address(0)\<close> is the word \<open>0\<close>; both contracts use it as the "absent" value of
  their mappings. Comparison of two \<open>bytes32\<close> values is the unsigned comparison of
  the words.
\<close>

type_synonym bytes32 = "256 word"
type_synonym uint256 = "256 word"
type_synonym address = "160 word"

text \<open>
  The chain's hash primitive \<open>keccak256\<close> is not part of the repository. Every
  definition that hashes takes the primitive as a parameter: \<open>h a b\<close> stands for
  \<open>keccak256(a || b)\<close> on two 32-byte operands.
\<close>

type_synonym hash2 = "bytes32 \<Rightarrow> bytes32 \<Rightarrow> bytes32"

text \<open>
  A failed \<open>require\<close> reverts the transaction with its message; the \<open>onlyRole\<close>
  modifier reverts with the account and the role; checked arithmetic of Solidity 0.8
  reverts with a panic code. A reverted call leaves the contract's storage as it was, so
  an operation returns either the error or the new state.
\<close>

datatype role = DEFAULT_ADMIN_ROLE | ISSUER_ROLE

datatype error =
    Revert string
  | AccessControlUnauthorizedAccount address role
  | Panic nat

section \<open>MerkleEngine\<close>

text \<open>
  Tree construction and proof generation are done by the \<open>merkletreejs\<close> package
  (\<open>new MerkleTree(leaves, keccak256, { sortPairs: true })\<close>, \<open>getHexRoot\<close>,
  \<open>getHexProof\<close>) and proof verification by OpenZeppelin's \<open>MerkleProof.verify\<close>.
  Neither library is in the repository, which only calls them; the definitions of this
  section are therefore modelled from the specification's MerkleEngine (sections 3 and
  4.1). Where the specification's words and the package that the repository calls part
  ways (the lookup of \<open>proofFor\<close>), the definition follows the package and says so.
\<close>

text \<open>
  Modelled from the spec: the sorted-pair rule \<open>hash(min(a,b) || max(a,b))\<close> used for
  every interior node (the body of the absent library helpers).
\<close>

definition sortedPairHash :: "hash2 \<Rightarrow> bytes32 \<Rightarrow> bytes32 \<Rightarrow> bytes32" where
  "sortedPairHash h a b = (if a < b then h a b else h b a)"

text \<open>
  Modelled from the spec: \<open>verifyProof(leaf, root, proof)\<close>, the absent
  \<open>MerkleProof.verify\<close>. "Recomputes the path: at each step, combine the running hash
  with the next proof element using the sorted-pair rule, compare final value to root."
\<close>

fun processProof :: "hash2 \<Rightarrow> bytes32 list \<Rightarrow> bytes32 \<Rightarrow> bytes32" where
  "processProof h [] computedHash = computedHash"
| "processProof h (p # ps) computedHash = processProof h ps (sortedPairHash h computedHash p)"

definition verifyProof :: "hash2 \<Rightarrow> bytes32 \<Rightarrow> bytes32 \<Rightarrow> bytes32 list \<Rightarrow> bool" where
  "verifyProof h leaf root proof = (processProof h proof leaf = root)"

text \<open>
  Modelled from the spec: the rule for a level with an odd number of nodes. Section 3
  says the last node is duplicated; sections 4.1 and 9 leave the choice between
  duplicating it and carrying it unpaired to the next level open, and ask only that
  tree construction and proof generation use the same rule. The rule is a parameter of
  both.
\<close>

datatype oddRule = DuplicateLast | CarryUnpaired

text \<open>
  Modelled from the spec: \<open>buildTree\<close>, the absent \<open>MerkleTree\<close> constructor. A tree
  is the sequence of its levels, level 0 the leaves in input order and the last level
  the root alone; every node of level k+1 is the sorted-pair hash of two neighbours of
  level k ("pairing is positional but hashing within a pair is order-independent"). The
  levels are built until one node is left.
\<close>

type_synonym MerkleTree = "bytes32 list list"

fun nextLevel :: "oddRule \<Rightarrow> hash2 \<Rightarrow> bytes32 list \<Rightarrow> bytes32 list" where
  "nextLevel r h (a # b # rest) = sortedPairHash h a b # nextLevel r h rest"
| "nextLevel r h [a] = (case r of DuplicateLast \<Rightarrow> [sortedPairHash h a a] | CarryUnpaired \<Rightarrow> [a])"
| "nextLevel r h [] = []"

function buildTree :: "oddRule \<Rightarrow> hash2 \<Rightarrow> bytes32 list \<Rightarrow> MerkleTree" where
  "buildTree r h level =
     (if length level \<le> 1 then [level] else level # buildTree r h (nextLevel r h level))"
  by pat_completeness auto
termination
proof (relation "measure (\<lambda>(r, h, level). length level)")
  show "wf (measure (\<lambda>(r :: oddRule, h :: hash2, level :: bytes32 list). length level))"
    by simp
next
  fix r :: oddRule and h :: hash2 and level :: "bytes32 list"
  assume big: "\<not> length level \<le> 1"
  have len: "length (nextLevel r h xs) = (length xs + 1) div 2" for xs
    by (induction r h xs rule: nextLevel.induct) (auto split: oddRule.splits)
  have "(length level + 1) div 2 < length level"
    using big by arith
  then show "((r, h, nextLevel r h level), (r, h, level))
      \<in> measure (\<lambda>(r, h, level). length level)"
    by (simp add: len)
qed

declare buildTree.simps [simp del]

text \<open>Modelled from the spec: \<open>rootOf\<close> "returns the single top node".\<close>

definition rootOf :: "MerkleTree \<Rightarrow> bytes32 option" where
  "rootOf tree =
     (if tree = [] then None else (case last tree of [node] \<Rightarrow> Some node | _ \<Rightarrow> None))"

text \<open>
  Modelled from the spec: \<open>proofFor(tree, leaf)\<close>, the absent \<open>getHexProof\<close>. The
  leaf is looked up by value among the leaves, and the proof is the sequence of sibling
  hashes from the leaf's level up to the level below the root; at the unpaired last node
  of an odd level the sibling is the node itself when the rule duplicates, and there is
  none when the rule carries the node up.

  Section 4.1 has the lookup fail with \<open>NotFound\<close> for a leaf that is absent or that
  appears more than once. The package that the repository calls has no such failure, and
  the definition follows the package: its lookup runs over all the leaves, from the first
  to the last, keeps the index of the latest match (\<open>-1\<close> while there is none), and an
  index of \<open>-1\<close> gives the empty proof. The result type keeps the specification's error
  so that a failure can be told from a proof; no branch produces it.
\<close>

datatype proof_error = NotFound

fun findLeafIndex :: "bytes32 list \<Rightarrow> bytes32 \<Rightarrow> nat \<Rightarrow> int \<Rightarrow> int" where
  "findLeafIndex [] leaf i index = index"
| "findLeafIndex (x # xs) leaf i index =
     findLeafIndex xs leaf (Suc i) (if x = leaf then int i else index)"

definition siblingAt :: "oddRule \<Rightarrow> bytes32 list \<Rightarrow> nat \<Rightarrow> bytes32 list" where
  "siblingAt r level i =
     (let pairIndex = (if odd i then i - 1 else i + 1) in
      if pairIndex < length level then [level ! pairIndex]
      else if i < length level then (case r of DuplicateLast \<Rightarrow> [level ! i] | CarryUnpaired \<Rightarrow> [])
      else [])"

fun siblingPath :: "oddRule \<Rightarrow> MerkleTree \<Rightarrow> nat \<Rightarrow> bytes32 list" where
  "siblingPath r [] i = []"
| "siblingPath r [topLevel] i = []"
| "siblingPath r (level # upper) i = siblingAt r level i @ siblingPath r upper (i div 2)"

definition proofFor :: "oddRule \<Rightarrow> MerkleTree \<Rightarrow> bytes32 \<Rightarrow> proof_error + bytes32 list" where
  "proofFor r tree leaf =
     (let index = (case tree of [] \<Rightarrow> - 1 | leaves # upper \<Rightarrow> findLeafIndex leaves leaf 0 (- 1)) in
      if index \<le> - 1 then Inr [] else Inr (siblingPath r tree (nat index)))"

text \<open>
  A stand-in for the hash primitive, used only to evaluate the definitions on concrete
  inputs; the general theorems hold for every hash function.
\<close>

definition toyHash :: hash2 where
  "toyHash a b = 31 * a + b + 7"

section \<open>BatchLedger: the contract VCRegistry\<close>

text \<open>
  Storage of \<open>VCRegistry\<close>: the two mappings of the contract and the role table it
  inherits from \<open>AccessControl\<close>. A Solidity mapping is total, with the zero value at
  every key never written.
\<close>

record vc_state =
  hasRole :: "role \<Rightarrow> address \<Rightarrow> bool"
  merkleRootToIssuer :: "bytes32 \<Rightarrow> address"
  isBatchCredentialRevoked :: "bytes32 \<Rightarrow> bool"

datatype vc_event =
    BatchCredentialsIssued bytes32 address
  | BatchCredentialRevoked bytes32 bytes32 address

text \<open>The constructor grants both roles to the deployer; the mappings start empty.\<close>

definition vc_constructor :: "address \<Rightarrow> vc_state" where
  "vc_constructor deployer =
     \<lparr> hasRole = (\<lambda>r a. a = deployer),
       merkleRootToIssuer = (\<lambda>_. 0),
       isBatchCredentialRevoked = (\<lambda>_. False) \<rparr>"

text \<open>
  Modelled from the spec: the modifier \<open>onlyRole\<close> of the absent \<open>AccessControl\<close>
  base contract, the "issuer capability" check of section 4.2: the call goes on only
  when the sender holds the role. The inner \<open>grantRole\<close> and \<open>revokeRole\<close> of
  \<open>grantIssuerRole\<close> and \<open>revokeIssuerRole\<close> set and clear the sender's entry of
  the role table; the admin of \<open>ISSUER_ROLE\<close> is \<open>DEFAULT_ADMIN_ROLE\<close>, which the
  contract never changes, so their own role check repeats the modifier's. The events of
  the base contract are left out.
\<close>

definition onlyRole :: "vc_state \<Rightarrow> role \<Rightarrow> address \<Rightarrow> error option" where
  "onlyRole s r sender =
     (if hasRole s r sender then None else Some (AccessControlUnauthorizedAccount sender r))"

definition grantIssuerRole :: "vc_state \<Rightarrow> address \<Rightarrow> address \<Rightarrow> error + vc_state \<times> vc_event list" where
  "grantIssuerRole s sender issuer =
     (case onlyRole s DEFAULT_ADMIN_ROLE sender of
        Some e \<Rightarrow> Inl e
      | None \<Rightarrow> Inr (s\<lparr>hasRole := (hasRole s)(ISSUER_ROLE := (hasRole s ISSUER_ROLE)(issuer := True))\<rparr>, []))"

definition revokeIssuerRole :: "vc_state \<Rightarrow> address \<Rightarrow> address \<Rightarrow> error + vc_state \<times> vc_event list" where
  "revokeIssuerRole s sender issuer =
     (case onlyRole s DEFAULT_ADMIN_ROLE sender of
        Some e \<Rightarrow> Inl e
      | None \<Rightarrow> Inr (s\<lparr>hasRole := (hasRole s)(ISSUER_ROLE := (hasRole s ISSUER_ROLE)(issuer := False))\<rparr>, []))"

definition issueBatchCredentials :: "vc_state \<Rightarrow> address \<Rightarrow> bytes32 \<Rightarrow> error + vc_state \<times> vc_event list" where
  "issueBatchCredentials s sender merkleRoot =
     (case onlyRole s ISSUER_ROLE sender of
        Some e \<Rightarrow> Inl e
      | None \<Rightarrow>
          if merkleRootToIssuer s merkleRoot \<noteq> 0
          then Inl (Revert ''VCRegistry: Merkle root already exists'')
          else Inr (s\<lparr>merkleRootToIssuer := (merkleRootToIssuer s)(merkleRoot := sender)\<rparr>,
                    [BatchCredentialsIssued merkleRoot sender]))"

definition revokeBatchCredential :: "vc_state \<Rightarrow> address \<Rightarrow> bytes32 \<Rightarrow> bytes32 \<Rightarrow> error + vc_state \<times> vc_event list" where
  "revokeBatchCredential s sender leaf merkleRoot =
     (let issuer = merkleRootToIssuer s merkleRoot in
      if issuer = 0 then Inl (Revert ''VCRegistry: Merkle root does not exist'')
      else if sender \<noteq> issuer then Inl (Revert ''VCRegistry: Caller is not the batch issuer'')
      else if isBatchCredentialRevoked s leaf then Inl (Revert ''VCRegistry: Credential already revoked'')
      else Inr (s\<lparr>isBatchCredentialRevoked := (isBatchCredentialRevoked s)(leaf := True)\<rparr>,
                [BatchCredentialRevoked leaf merkleRoot sender]))"

text \<open>
  \<open>verifyCredential\<close> is a \<open>view\<close> function: it reads the storage and returns a pair.
  The missing issuer is \<open>address(0)\<close>.
\<close>

definition verifyCredential :: "hash2 \<Rightarrow> vc_state \<Rightarrow> bytes32 \<Rightarrow> bytes32 \<Rightarrow> bytes32 list \<Rightarrow> bool \<times> address" where
  "verifyCredential h s leaf merkleRoot proof =
     (if isBatchCredentialRevoked s leaf then (False, 0)
      else
        let issuer = merkleRootToIssuer s merkleRoot in
        if issuer = 0 then (False, 0)
        else
          let isValid = verifyProof h leaf merkleRoot proof in
          if isValid then (True, issuer) else (False, 0))"

text \<open>The names the specification gives to the four revert messages.\<close>

definition DuplicateRoot :: error where
  "DuplicateRoot = Revert ''VCRegistry: Merkle root already exists''"

definition UnknownRoot :: error where
  "UnknownRoot = Revert ''VCRegistry: Merkle root does not exist''"

definition NotAuthorized :: error where
  "NotAuthorized = Revert ''VCRegistry: Caller is not the batch issuer''"

definition AlreadyRevoked :: error where
  "AlreadyRevoked = Revert ''VCRegistry: Credential already revoked''"

text \<open>
  The external calls of the contract. \<open>AccessControlCall\<close> stands for the entry points
  inherited from \<open>AccessControl\<close> (\<open>grantRole\<close>, \<open>revokeRole\<close>, \<open>renounceRole\<close>),
  whose code is not in the repository: all that is assumed of them is that they touch
  nothing but the role table, which they may change in any way.
\<close>

datatype vc_call =
    GrantIssuerRole address
  | RevokeIssuerRole address
  | IssueBatchCredentials bytes32
  | RevokeBatchCredential bytes32 bytes32
  | VerifyCredential bytes32 bytes32 "bytes32 list"
  | AccessControlCall "role \<Rightarrow> address \<Rightarrow> bool"

datatype vc_return = Unit | Verdict bool address

fun vc_dispatch :: "hash2 \<Rightarrow> vc_state \<Rightarrow> address \<Rightarrow> vc_call \<Rightarrow> error + vc_state \<times> vc_event list \<times> vc_return" where
  "vc_dispatch h s sender (GrantIssuerRole a) =
     (case grantIssuerRole s sender a of Inl e \<Rightarrow> Inl e | Inr (s', ev) \<Rightarrow> Inr (s', ev, Unit))"
| "vc_dispatch h s sender (RevokeIssuerRole a) =
     (case revokeIssuerRole s sender a of Inl e \<Rightarrow> Inl e | Inr (s', ev) \<Rightarrow> Inr (s', ev, Unit))"
| "vc_dispatch h s sender (IssueBatchCredentials r) =
     (case issueBatchCredentials s sender r of Inl e \<Rightarrow> Inl e | Inr (s', ev) \<Rightarrow> Inr (s', ev, Unit))"
| "vc_dispatch h s sender (RevokeBatchCredential l r) =
     (case revokeBatchCredential s sender l r of Inl e \<Rightarrow> Inl e | Inr (s', ev) \<Rightarrow> Inr (s', ev, Unit))"
| "vc_dispatch h s sender (VerifyCredential l r p) =
     (case verifyCredential h s l r p of (ok, issuer) \<Rightarrow> Inr (s, [], Verdict ok issuer))"
| "vc_dispatch h s sender (AccessControlCall t) = Inr (s\<lparr>hasRole := t\<rparr>, [], Unit)"

text \<open>
  One transaction: the state after the call, which is the state before it when the call
  reverts. \<open>vc_run\<close> is the state after a sequence of transactions, each with its
  sender.
\<close>

definition vc_step :: "hash2 \<Rightarrow> vc_state \<Rightarrow> address \<times> vc_call \<Rightarrow> vc_state" where
  "vc_step h s tx = (case vc_dispatch h s (fst tx) (snd tx) of Inl e \<Rightarrow> s | Inr (s', ev, r) \<Rightarrow> s')"

fun vc_run :: "hash2 \<Rightarrow> vc_state \<Rightarrow> (address \<times> vc_call) list \<Rightarrow> vc_state" where
  "vc_run h s [] = s"
| "vc_run h s (tx # txs) = vc_run h (vc_step h s tx) txs"

text \<open>
  A small history used to evaluate the contract: the deployer \<open>1\<close> makes \<open>2\<close> an
  issuer, then \<open>1\<close> publishes the root \<open>5\<close> and \<open>2\<close> publishes the root \<open>6\<close>.
\<close>

definition vc_example :: vc_state where
  "vc_example = vc_run toyHash (vc_constructor 1)
     [(1, GrantIssuerRole 2), (1, IssueBatchCredentials 5), (2, IssueBatchCredentials 6)]"

section \<open>IdentityLedger: the contract DIDRegistry\<close>

datatype Status = Active | Revoked

record DIDDocument =
  controller :: address
  cid :: string
  status :: Status

text \<open>
  Storage of \<open>DIDRegistry\<close>. A key of \<open>dids\<close> never written holds the zero document:
  controller \<open>address(0)\<close>, empty cid, status \<open>Active\<close> (the enum's first value).
\<close>

record did_state =
  dids :: "bytes32 \<Rightarrow> DIDDocument"
  nonces :: "address \<Rightarrow> uint256"
  ownerToDIDs :: "address \<Rightarrow> bytes32 list"

datatype did_event =
    DIDRegistered bytes32 address string
  | DIDUpdated bytes32 string
  | DIDRevoked bytes32

definition did_constructor :: did_state where
  "did_constructor =
     \<lparr> dids = (\<lambda>_. \<lparr>controller = 0, cid = [], status = Active\<rparr>),
       nonces = (\<lambda>_. 0),
       ownerToDIDs = (\<lambda>_. []) \<rparr>"

text \<open>
  \<open>createDID\<close>. The identifier is \<open>keccak256(abi.encodePacked(msg.sender, userNonce))\<close>;
  the hash of the packed pair is the parameter \<open>didHash\<close>. The increment of the nonce is
  checked arithmetic: at the largest \<open>uint256\<close> it panics with code 0x11 and the whole
  call reverts.
\<close>

definition createDID :: "(address \<Rightarrow> uint256 \<Rightarrow> bytes32) \<Rightarrow> did_state \<Rightarrow> address \<Rightarrow> string \<Rightarrow> error + did_state \<times> did_event list" where
  "createDID didHash s sender newCid =
     (let userNonce = nonces s sender;
          did = didHash sender userNonce in
      if controller (dids s did) \<noteq> 0 then Inl (Revert ''DIDRegistry: DID already exists'')
      else if userNonce = - 1 then Inl (Panic 17)
      else Inr (s\<lparr>dids := (dids s)(did := \<lparr>controller = sender, cid = newCid, status = Active\<rparr>),
                  nonces := (nonces s)(sender := userNonce + 1),
                  ownerToDIDs := (ownerToDIDs s)(sender := ownerToDIDs s sender @ [did])\<rparr>,
                [DIDRegistered did sender newCid]))"

definition updateDID :: "did_state \<Rightarrow> address \<Rightarrow> bytes32 \<Rightarrow> string \<Rightarrow> error + did_state \<times> did_event list" where
  "updateDID s sender did newCid =
     (let doc = dids s did in
      if controller doc = 0 then Inl (Revert ''DIDRegistry: DID does not exist'')
      else if controller doc \<noteq> sender then Inl (Revert ''DIDRegistry: Caller is not the controller'')
      else if status doc \<noteq> Active then Inl (Revert ''DIDRegistry: DID is revoked'')
      else Inr (s\<lparr>dids := (dids s)(did := doc\<lparr>cid := newCid\<rparr>)\<rparr>, [DIDUpdated did newCid]))"

definition revokeDID :: "did_state \<Rightarrow> address \<Rightarrow> bytes32 \<Rightarrow> error + did_state \<times> did_event list" where
  "revokeDID s sender did =
     (let doc = dids s did in
      if controller doc = 0 then Inl (Revert ''DIDRegistry: DID does not exist'')
      else if controller doc \<noteq> sender then Inl (Revert ''DIDRegistry: Caller is not the controller'')
      else if status doc \<noteq> Active then Inl (Revert ''DIDRegistry: DID is already revoked'')
      else Inr (s\<lparr>dids := (dids s)(did := doc\<lparr>status := Revoked\<rparr>)\<rparr>, [DIDRevoked did]))"

definition resolveDID :: "did_state \<Rightarrow> bytes32 \<Rightarrow> error + address \<times> string \<times> Status" where
  "resolveDID s did =
     (let doc = dids s did in
      if controller doc = 0 then Inl (Revert ''DIDRegistry: DID does not exist'')
      else Inr (controller doc, cid doc, status doc))"

definition getDIDsByOwner :: "did_state \<Rightarrow> address \<Rightarrow> bytes32 list" where
  "getDIDsByOwner s owner = ownerToDIDs s owner"

text \<open>
  The names the specification gives to the revert messages of this contract. Its
  \<open>AlreadyRevoked\<close> is two messages here, one of \<open>updateDID\<close> and one of \<open>revokeDID\<close>.
\<close>

definition CollisionDetected :: error where
  "CollisionDetected = Revert ''DIDRegistry: DID already exists''"

definition DIDNotFound :: error where
  "DIDNotFound = Revert ''DIDRegistry: DID does not exist''"

definition NotController :: error where
  "NotController = Revert ''DIDRegistry: Caller is not the controller''"

definition UpdateAlreadyRevoked :: error where
  "UpdateAlreadyRevoked = Revert ''DIDRegistry: DID is revoked''"

definition RevokeAlreadyRevoked :: error where
  "RevokeAlreadyRevoked = Revert ''DIDRegistry: DID is already revoked''"

datatype did_call =
    CreateDID string
  | UpdateDID bytes32 string
  | RevokeDID bytes32
  | ResolveDID bytes32
  | GetDIDsByOwner address

fun did_dispatch :: "(address \<Rightarrow> uint256 \<Rightarrow> bytes32) \<Rightarrow> did_state \<Rightarrow> address \<Rightarrow> did_call \<Rightarrow> error + did_state \<times> did_event list" where
  "did_dispatch didHash s sender (CreateDID c) = createDID didHash s sender c"
| "did_dispatch didHash s sender (UpdateDID d c) = updateDID s sender d c"
| "did_dispatch didHash s sender (RevokeDID d) = revokeDID s sender d"
| "did_dispatch didHash s sender (ResolveDID d) =
     (case resolveDID s d of Inl e \<Rightarrow> Inl e | Inr v \<Rightarrow> Inr (s, []))"
| "did_dispatch didHash s sender (GetDIDsByOwner a) = Inr (s, [])"

definition did_step :: "(address \<Rightarrow> uint256 \<Rightarrow> bytes32) \<Rightarrow> did_state \<Rightarrow> address \<times> did_call \<Rightarrow> did_state" where
  "did_step didHash s tx =
     (case did_dispatch didHash s (fst tx) (snd tx) of Inl e \<Rightarrow> s | Inr (s', ev) \<Rightarrow> s')"

fun did_run :: "(address \<Rightarrow> uint256 \<Rightarrow> bytes32) \<Rightarrow> did_state \<Rightarrow> (address \<times> did_call) list \<Rightarrow> did_state" where
  "did_run didHash s [] = s"
| "did_run didHash s (tx # txs) = did_run didHash (did_step didHash s tx) txs"

text \<open>
  A stand-in for the hash of \<open>(sender, nonce)\<close> and a small history used to evaluate
  the contract: the senders \<open>3\<close> and \<open>4\<close> each create one identifier.
\<close>

definition toyDidHash :: "address \<Rightarrow> uint256 \<Rightarrow> bytes32" where
  "toyDidHash a n = 1000 * ucast a + n + 1"

definition did_example :: did_state where
  "did_example =
     did_run toyDidHash did_constructor [(3, CreateDID ''QmA''), (4, CreateDID ''QmB'')]"

section \<open>Properties of the BatchLedger\<close>

text \<open>
  C1: \<open>verifyCredential\<close> is a pure query that never raises: as a call it always returns,
  with the storage unchanged and no event, and its verdict is the three-stage check in
  this order: a revoked leaf gives \<open>(false, none)\<close>; otherwise a root with no recorded
  issuer gives \<open>(false, none)\<close>; otherwise the Merkle proof is verified, and the result
  is \<open>(false, none)\<close> for an invalid proof and \<open>(true, issuer of the root)\<close> for a
  valid one.
\<close>

theorem verifyCredential_three_stage:
  "vc_dispatch h s sender (VerifyCredential leaf root proof) =
     Inr (s, [], Verdict (fst (verifyCredential h s leaf root proof))
                         (snd (verifyCredential h s leaf root proof)))
   \<and> verifyCredential h s leaf root proof =
     (if isBatchCredentialRevoked s leaf then (False, 0)
      else if merkleRootToIssuer s root = 0 then (False, 0)
      else if verifyProof h leaf root proof then (True, merkleRootToIssuer s root)
      else (False, 0))"
  by (simp add: verifyCredential_def Let_def split: prod.splits)

lemmas vc_eval = vc_example_def vc_step_def vc_constructor_def onlyRole_def grantIssuerRole_def
  revokeIssuerRole_def issueBatchCredentials_def revokeBatchCredential_def verifyCredential_def
  verifyProof_def DuplicateRoot_def UnknownRoot_def NotAuthorized_def AlreadyRevoked_def Let_def

subsection \<open>What no transaction undoes\<close>

lemma vc_step_revoked:
  "isBatchCredentialRevoked s leaf \<Longrightarrow> isBatchCredentialRevoked (vc_step h s tx) leaf"
  by (cases tx; cases "snd tx")
     (auto simp: vc_step_def grantIssuerRole_def revokeIssuerRole_def issueBatchCredentials_def
        revokeBatchCredential_def Let_def split: option.splits prod.splits sum.splits if_splits)

lemma vc_run_revoked:
  "isBatchCredentialRevoked s leaf \<Longrightarrow> isBatchCredentialRevoked (vc_run h s txs) leaf"
  by (induction txs arbitrary: s) (auto simp: vc_step_revoked)

lemma vc_step_issuer:
  "merkleRootToIssuer s root \<noteq> 0 \<Longrightarrow>
   merkleRootToIssuer (vc_step h s tx) root = merkleRootToIssuer s root"
  by (cases tx; cases "snd tx")
     (auto simp: vc_step_def grantIssuerRole_def revokeIssuerRole_def issueBatchCredentials_def
        revokeBatchCredential_def Let_def split: option.splits prod.splits sum.splits if_splits)

lemma vc_run_issuer:
  "merkleRootToIssuer s root \<noteq> 0 \<Longrightarrow>
   merkleRootToIssuer (vc_run h s txs) root = merkleRootToIssuer s root"
  by (induction txs arbitrary: s) (auto simp: vc_step_issuer)

text \<open>
  C3: once a leaf is revoked (by a successful \<open>revokeBatchCredential\<close> under any root
  \<open>root0\<close>), the leaf stays revoked after every further sequence of transactions, and
  \<open>verifyCredential\<close> on it returns \<open>(false, none)\<close> for every root and every proof.
  The flag is stored under the leaf alone, so the root used to revoke plays no part.
\<close>

theorem revocation_dominates_forever:
  assumes "revokeBatchCredential s0 sender leaf root0 = Inr (s, ev)"
  shows "isBatchCredentialRevoked (vc_run h s txs) leaf \<and>
         verifyCredential h (vc_run h s txs) leaf root proof = (False, 0)"
proof -
  have "isBatchCredentialRevoked s leaf"
    using assms by (auto simp: revokeBatchCredential_def Let_def split: if_splits)
  then have "isBatchCredentialRevoked (vc_run h s txs) leaf"
    by (rule vc_run_revoked)
  then show ?thesis by (simp add: verifyCredential_def)
qed

text \<open>
  In the example history the leaf \<open>6\<close> verifies under the published root \<open>6\<close> with the
  empty proof. Issuer \<open>1\<close> revokes it under its own root \<open>5\<close>; it no longer verifies
  under root \<open>6\<close>, whatever happens next.
\<close>

theorem revocation_dominates_forever_witness:
  "verifyCredential toyHash vc_example 6 6 [] = (True, 2) \<and>
   (\<exists>s ev. revokeBatchCredential vc_example 1 6 5 = Inr (s, ev) \<and>
      verifyCredential toyHash (vc_run toyHash s [(2, IssueBatchCredentials 7)]) 6 6 [] = (False, 0))"
proof -
  have before: "verifyCredential toyHash vc_example 6 6 [] = (True, 2)"
    by (simp add: vc_eval)
  obtain s ev where rv: "revokeBatchCredential vc_example 1 6 5 = Inr (s, ev)"
    by (simp add: vc_eval)
  from revocation_dominates_forever [OF rv, of toyHash "[(2, IssueBatchCredentials 7)]" 6 "[]"]
  have "verifyCredential toyHash (vc_run toyHash s [(2, IssueBatchCredentials 7)]) 6 6 [] = (False, 0)"
    by simp
  with before rv show ?thesis by blast
qed

text \<open>
  C4: when the root already has an issuer, \<open>issueBatchCredentials\<close> by a holder of the
  issuer role fails with \<open>DuplicateRoot\<close>; by any sender it fails, and the transaction
  leaves the state as it was. The issuer recorded for the root is the same after every
  further sequence of transactions.
\<close>

theorem issueBatch_duplicate_root:
  assumes "merkleRootToIssuer s root \<noteq> 0"
  shows "(hasRole s ISSUER_ROLE sender \<longrightarrow> issueBatchCredentials s sender root = Inl DuplicateRoot)
       \<and> (\<exists>e. issueBatchCredentials s sender root = Inl e)
       \<and> vc_step h s (sender, IssueBatchCredentials root) = s
       \<and> merkleRootToIssuer (vc_run h s txs) root = merkleRootToIssuer s root"
  using assms vc_run_issuer [OF assms]
  by (auto simp: issueBatchCredentials_def onlyRole_def DuplicateRoot_def vc_step_def
      split: option.splits)

theorem issueBatch_duplicate_root_witness:
  "merkleRootToIssuer vc_example 5 = 1 \<and> hasRole vc_example ISSUER_ROLE 2 \<and>
   issueBatchCredentials vc_example 2 5 = Inl DuplicateRoot \<and>
   merkleRootToIssuer
     (vc_run toyHash vc_example [(2, IssueBatchCredentials 5), (1, RevokeIssuerRole 1)]) 5 = 1"
proof -
  have m: "merkleRootToIssuer vc_example 5 = 1" by (simp add: vc_eval)
  have r: "hasRole vc_example ISSUER_ROLE 2" by (simp add: vc_eval)
  have nz: "merkleRootToIssuer vc_example 5 \<noteq> 0" by (simp add: m)
  let ?txs = "[(2, IssueBatchCredentials 5), (1, RevokeIssuerRole 1)]"
  from issueBatch_duplicate_root [OF nz, of 2 toyHash ?txs] r
  have "issueBatchCredentials vc_example 2 5 = Inl DuplicateRoot"
    and "merkleRootToIssuer (vc_run toyHash vc_example ?txs) 5 = merkleRootToIssuer vc_example 5"
    by blast+
  with m r show ?thesis by (simp del: vc_run.simps)
qed

text \<open>
  C5: \<open>revokeBatchCredential\<close> checks in this order: a root with no recorded issuer
  fails with \<open>UnknownRoot\<close>; then a caller other than the issuer fails with
  \<open>NotAuthorized\<close>; then a leaf already revoked fails with \<open>AlreadyRevoked\<close>.
  Otherwise the call marks the leaf revoked, changes nothing else, and emits
  \<open>BatchCredentialRevoked(leaf, root, caller)\<close>. A call that fails leaves the state
  unchanged.
\<close>

theorem revokeBatchCredential_checks:
  "(merkleRootToIssuer s root = 0 \<longrightarrow>
      revokeBatchCredential s caller leaf root = Inl UnknownRoot)
 \<and> (merkleRootToIssuer s root \<noteq> 0 \<and> caller \<noteq> merkleRootToIssuer s root \<longrightarrow>
      revokeBatchCredential s caller leaf root = Inl NotAuthorized)
 \<and> (merkleRootToIssuer s root \<noteq> 0 \<and> caller = merkleRootToIssuer s root
      \<and> isBatchCredentialRevoked s leaf \<longrightarrow>
      revokeBatchCredential s caller leaf root = Inl AlreadyRevoked)
 \<and> (merkleRootToIssuer s root \<noteq> 0 \<and> caller = merkleRootToIssuer s root
      \<and> \<not> isBatchCredentialRevoked s leaf \<longrightarrow>
      revokeBatchCredential s caller leaf root =
        Inr (s\<lparr>isBatchCredentialRevoked := (isBatchCredentialRevoked s)(leaf := True)\<rparr>,
             [BatchCredentialRevoked leaf root caller]))
 \<and> ((\<exists>e. revokeBatchCredential s caller leaf root = Inl e) \<longrightarrow>
      vc_step h s (caller, RevokeBatchCredential leaf root) = s)"
  by (auto simp: revokeBatchCredential_def vc_step_def UnknownRoot_def NotAuthorized_def
      AlreadyRevoked_def Let_def)

theorem revokeBatchCredential_checks_witness:
  "revokeBatchCredential vc_example 1 9 7 = Inl UnknownRoot
 \<and> revokeBatchCredential vc_example 2 9 5 = Inl NotAuthorized
 \<and> revokeBatchCredential (vc_step toyHash vc_example (1, RevokeBatchCredential 9 5)) 1 9 5
      = Inl AlreadyRevoked
 \<and> vc_step toyHash vc_example (2, RevokeBatchCredential 9 5) = vc_example
 \<and> revokeBatchCredential vc_example 1 9 5 =
      Inr (vc_example\<lparr>isBatchCredentialRevoked := (isBatchCredentialRevoked vc_example)(9 := True)\<rparr>,
           [BatchCredentialRevoked 9 5 1])"
proof -
  have i5: "merkleRootToIssuer vc_example 5 = 1" and i7: "merkleRootToIssuer vc_example 7 = 0"
    and r9: "\<not> isBatchCredentialRevoked vc_example 9"
    by (simp_all add: vc_eval)
  let ?s = "vc_step toyHash vc_example (1, RevokeBatchCredential 9 5)"
  have j5: "merkleRootToIssuer ?s 5 = 1" and q9: "isBatchCredentialRevoked ?s 9"
    by (simp_all add: vc_eval)
  show ?thesis
    using revokeBatchCredential_checks [of vc_example 7 1 9 toyHash]
      revokeBatchCredential_checks [of vc_example 5 2 9 toyHash]
      revokeBatchCredential_checks [of ?s 5 1 9 toyHash]
      revokeBatchCredential_checks [of vc_example 5 1 9 toyHash]
      i5 i7 r9 j5 q9
    by simp
qed

text \<open>
  C10: \<open>revokeBatchCredential\<close> never checks that the leaf belongs to the batch of the
  root. Whenever the root \<open>r\<close> has a recorded issuer \<open>i\<close> and the leaf \<open>l\<close> is not yet
  revoked, the call by \<open>i\<close> succeeds for any 32-byte \<open>l\<close>, and afterwards
  \<open>verifyCredential\<close> returns \<open>(false, none)\<close> for \<open>l\<close> under every root and proof.
\<close>

theorem revoke_without_membership:
  assumes "merkleRootToIssuer s r = i" and "i \<noteq> 0" and "\<not> isBatchCredentialRevoked s l"
  shows "\<exists>s'. revokeBatchCredential s i l r = Inr (s', [BatchCredentialRevoked l r i]) \<and>
           (\<forall>root proof. verifyCredential h s' l root proof = (False, 0))"
  using assms by (simp add: revokeBatchCredential_def verifyCredential_def Let_def)

text \<open>
  The leaf \<open>6\<close> belongs to the batch of issuer \<open>2\<close> (it verifies under root \<open>6\<close>);
  issuer \<open>1\<close> revokes it through its own root \<open>5\<close>.
\<close>

theorem revoke_without_membership_witness:
  "verifyCredential toyHash vc_example 6 6 [] = (True, 2) \<and>
   (\<exists>s'. revokeBatchCredential vc_example 1 6 5 = Inr (s', [BatchCredentialRevoked 6 5 1]) \<and>
      verifyCredential toyHash s' 6 6 [] = (False, 0))"
proof -
  have a: "merkleRootToIssuer vc_example 5 = 1" and b: "(1 :: address) \<noteq> 0"
    and c: "\<not> isBatchCredentialRevoked vc_example 6"
    and d: "verifyCredential toyHash vc_example 6 6 [] = (True, 2)"
    by (simp_all add: vc_eval)
  from revoke_without_membership [OF a b c, of toyHash] d show ?thesis by blast
qed

section \<open>Properties of the IdentityLedger\<close>

lemmas did_eval = did_example_def did_step_def did_constructor_def createDID_def updateDID_def
  revokeDID_def resolveDID_def getDIDsByOwner_def toyDidHash_def CollisionDetected_def
  DIDNotFound_def NotController_def UpdateAlreadyRevoked_def RevokeAlreadyRevoked_def Let_def

subsection \<open>What no transaction undoes\<close>

text \<open>
  A record whose controller is not \<open>address(0)\<close> keeps its controller; the reverse
  index of an owner only grows; a transaction of anyone but the controller leaves the
  record as it was; and a revoked record is frozen.
\<close>

lemma did_step_controller:
  "controller (dids s d) \<noteq> 0 \<Longrightarrow> controller (dids (did_step dh s tx) d) = controller (dids s d)"
  by (cases tx; cases "snd tx")
     (auto simp: did_step_def createDID_def updateDID_def revokeDID_def resolveDID_def Let_def
        split: sum.splits prod.splits if_splits)

lemma did_run_controller:
  "controller (dids s d) \<noteq> 0 \<Longrightarrow> controller (dids (did_run dh s txs) d) = controller (dids s d)"
  by (induction txs arbitrary: s) (auto simp: did_step_controller)

lemma did_step_owned:
  "d \<in> set (ownerToDIDs s c) \<Longrightarrow> d \<in> set (ownerToDIDs (did_step dh s tx) c)"
  by (cases tx; cases "snd tx")
     (auto simp: did_step_def createDID_def updateDID_def revokeDID_def resolveDID_def Let_def
        split: sum.splits prod.splits if_splits)

lemma did_run_owned:
  "d \<in> set (ownerToDIDs s c) \<Longrightarrow> d \<in> set (ownerToDIDs (did_run dh s txs) c)"
  by (induction txs arbitrary: s) (auto simp: did_step_owned)

lemma did_step_foreign:
  "controller (dids s d) \<noteq> 0 \<Longrightarrow> fst tx \<noteq> controller (dids s d) \<Longrightarrow>
   dids (did_step dh s tx) d = dids s d"
  by (cases tx; cases "snd tx")
     (auto simp: did_step_def createDID_def updateDID_def revokeDID_def resolveDID_def Let_def
        split: sum.splits prod.splits if_splits)

lemma did_run_foreign:
  "controller (dids s d) \<noteq> 0 \<Longrightarrow> \<forall>tx \<in> set txs. fst tx \<noteq> controller (dids s d) \<Longrightarrow>
   dids (did_run dh s txs) d = dids s d"
proof (induction txs arbitrary: s)
  case Nil
  then show ?case by simp
next
  case (Cons tx txs)
  then have same: "dids (did_step dh s tx) d = dids s d"
    by (intro did_step_foreign) auto
  with Cons.prems have "dids (did_run dh (did_step dh s tx) txs) d = dids (did_step dh s tx) d"
    by (intro Cons.IH) auto
  with same show ?case by simp
qed

lemma did_step_revoked:
  "controller (dids s d) \<noteq> 0 \<Longrightarrow> status (dids s d) = Revoked \<Longrightarrow>
   dids (did_step dh s tx) d = dids s d"
  by (cases tx; cases "snd tx")
     (auto simp: did_step_def createDID_def updateDID_def revokeDID_def resolveDID_def Let_def
        split: sum.splits prod.splits if_splits)

lemma did_run_revoked:
  "controller (dids s d) \<noteq> 0 \<Longrightarrow> status (dids s d) = Revoked \<Longrightarrow>
   dids (did_run dh s txs) d = dids s d"
  by (induction txs arbitrary: s) (auto simp: did_step_revoked)

text \<open>
  C8: \<open>createDID\<close> derives the identifier from the sender and the sender's current
  nonce. It fails with \<open>CollisionDetected\<close> when the derived identifier already has a
  controller. On success it emits the identifier, the sender's nonce has grown by one
  (without wrapping) and the identifier is appended to the sender's reverse index.
  Hence two successful creations by the same sender (not \<open>address(0)\<close>), with any
  transactions in between, give two distinct identifiers, both in \<open>getDIDsByOwner\<close>
  after the second.
\<close>

theorem createDID_fresh_identifier:
  "(controller (dids s (dh c (nonces s c))) \<noteq> 0 \<longrightarrow>
      createDID dh s c cid1 = Inl CollisionDetected)
 \<and> (createDID dh s c cid1 = Inr (s1, ev1) \<longrightarrow>
      ev1 = [DIDRegistered (dh c (nonces s c)) c cid1]
      \<and> unat (nonces s1 c) = unat (nonces s c) + 1
      \<and> getDIDsByOwner s1 c = getDIDsByOwner s c @ [dh c (nonces s c)])
 \<and> (c \<noteq> 0 \<and> createDID dh s c cid1 = Inr (s1, ev1)
      \<and> createDID dh (did_run dh s1 txs) c cid2 = Inr (s2, ev2) \<longrightarrow>
      (let id1 = dh c (nonces s c); id2 = dh c (nonces (did_run dh s1 txs) c) in
       ev1 = [DIDRegistered id1 c cid1] \<and> ev2 = [DIDRegistered id2 c cid2] \<and> id1 \<noteq> id2
       \<and> id1 \<in> set (getDIDsByOwner s2 c) \<and> id2 \<in> set (getDIDsByOwner s2 c)))"
proof (intro conjI impI)
  assume "controller (dids s (dh c (nonces s c))) \<noteq> 0"
  then show "createDID dh s c cid1 = Inl CollisionDetected"
    by (simp add: createDID_def CollisionDetected_def Let_def)
next
  assume ok: "createDID dh s c cid1 = Inr (s1, ev1)"
  then have nm: "nonces s c \<noteq> - 1"
    by (auto simp: createDID_def Let_def split: if_splits)
  then have "1 + nonces s c \<noteq> 0"
    by (simp add: eq_neg_iff_add_eq_0 add.commute)
  then have "unat (nonces s c + 1) = unat (nonces s c) + 1"
    using unatSuc [of "nonces s c"] by (simp add: add.commute)
  with ok show "ev1 = [DIDRegistered (dh c (nonces s c)) c cid1]"
    and "unat (nonces s1 c) = unat (nonces s c) + 1"
    and "getDIDsByOwner s1 c = getDIDsByOwner s c @ [dh c (nonces s c)]"
    by (auto simp: createDID_def getDIDsByOwner_def Let_def split: if_splits)
next
  let ?id1 = "dh c (nonces s c)"
  let ?t = "did_run dh s1 txs"
  let ?id2 = "dh c (nonces ?t c)"
  assume h: "c \<noteq> 0 \<and> createDID dh s c cid1 = Inr (s1, ev1) \<and> createDID dh ?t c cid2 = Inr (s2, ev2)"
  then have c1: "controller (dids s1 ?id1) = c" and o1: "?id1 \<in> set (ownerToDIDs s1 c)"
    and e1: "ev1 = [DIDRegistered ?id1 c cid1]"
    by (auto simp: createDID_def Let_def split: if_splits)
  from h c1 have ct: "controller (dids ?t ?id1) \<noteq> 0"
    by (simp add: did_run_controller)
  from o1 have ot: "?id1 \<in> set (ownerToDIDs ?t c)"
    by (rule did_run_owned)
  from h have free: "controller (dids ?t ?id2) = 0" and e2: "ev2 = [DIDRegistered ?id2 c cid2]"
    and o2: "ownerToDIDs s2 c = ownerToDIDs ?t c @ [?id2]"
    by (auto simp: createDID_def Let_def split: if_splits)
  from ct free have "?id1 \<noteq> ?id2" by auto
  with e1 e2 o2 ot show "let id1 = ?id1; id2 = ?id2 in
       ev1 = [DIDRegistered id1 c cid1] \<and> ev2 = [DIDRegistered id2 c cid2] \<and> id1 \<noteq> id2
       \<and> id1 \<in> set (getDIDsByOwner s2 c) \<and> id2 \<in> set (getDIDsByOwner s2 c)"
    by (simp add: getDIDsByOwner_def Let_def)
qed

text \<open>
  Sender \<open>3\<close> creates \<open>3001\<close> and later \<open>3002\<close>; with a hash that maps everything
  to \<open>7\<close> the second creation collides.
\<close>

theorem createDID_fresh_identifier_witness:
  "(\<exists>s1 ev1 s2 ev2.
      createDID toyDidHash did_constructor 3 ''QmA'' = Inr (s1, ev1)
    \<and> createDID toyDidHash (did_run toyDidHash s1 [(4, CreateDID ''QmB''), (3, UpdateDID 3001 ''QmC'')]) 3 ''QmD''
        = Inr (s2, ev2)
    \<and> ev1 = [DIDRegistered 3001 3 ''QmA''] \<and> ev2 = [DIDRegistered 3002 3 ''QmD'']
    \<and> 3001 \<in> set (getDIDsByOwner s2 3) \<and> 3002 \<in> set (getDIDsByOwner s2 3))
 \<and> createDID (\<lambda>a n. 7) (did_step (\<lambda>a n. 7) did_constructor (3, CreateDID ''QmA'')) 4 ''QmB''
      = Inl CollisionDetected"
proof -
  let ?txs = "[(4, CreateDID ''QmB''), (3, UpdateDID 3001 ''QmC'')]"
  let ?s1 = "did_step toyDidHash did_constructor (3, CreateDID ''QmA'')"
  let ?t = "did_run toyDidHash ?s1 ?txs"
  let ?s2 = "did_step toyDidHash ?t (3, CreateDID ''QmD'')"
  have a: "createDID toyDidHash did_constructor 3 ''QmA'' = Inr (?s1, [DIDRegistered 3001 3 ''QmA''])"
    by (simp add: did_eval)
  have n: "nonces ?t 3 = 1" "nonces did_constructor 3 = 0"
    by (simp_all add: did_eval)
  have b: "createDID toyDidHash ?t 3 ''QmD'' = Inr (?s2, [DIDRegistered 3002 3 ''QmD''])"
    by (simp add: did_eval)
  have c: "(3 :: address) \<noteq> 0" by simp
  from createDID_fresh_identifier
    [of did_constructor toyDidHash 3 "''QmA''" ?s1 "[DIDRegistered 3001 3 ''QmA'']" ?txs "''QmD''" ?s2
        "[DIDRegistered 3002 3 ''QmD'']"] a b c
  have "3001 \<in> set (getDIDsByOwner ?s2 3) \<and> 3002 \<in> set (getDIDsByOwner ?s2 3)"
    by (simp add: n Let_def toyDidHash_def del: did_run.simps)
  with a b have first: "\<exists>s1 ev1 s2 ev2.
      createDID toyDidHash did_constructor 3 ''QmA'' = Inr (s1, ev1)
    \<and> createDID toyDidHash (did_run toyDidHash s1 ?txs) 3 ''QmD'' = Inr (s2, ev2)
    \<and> ev1 = [DIDRegistered 3001 3 ''QmA''] \<and> ev2 = [DIDRegistered 3002 3 ''QmD'']
    \<and> 3001 \<in> set (getDIDsByOwner s2 3) \<and> 3002 \<in> set (getDIDsByOwner s2 3)"
    by blast
  let ?u = "did_step (\<lambda>a n. 7) did_constructor (3, CreateDID ''QmA'')"
  have "controller (dids ?u 7) \<noteq> 0"
    by (simp add: did_eval)
  with createDID_fresh_identifier [of ?u "\<lambda>a n. 7" 4 "''QmB''"]
  have "createDID (\<lambda>a n. 7) ?u 4 ''QmB'' = Inl CollisionDetected"
    by simp
  with first show ?thesis by blast
qed

text \<open>
  C9: for a record with controller \<open>c\<close> (not \<open>address(0)\<close>): a sender other than
  \<open>c\<close> fails \<open>NotController\<close> on \<open>updateDID\<close> and on \<open>revokeDID\<close>, no
  transaction of such a sender changes the record, and neither does any sequence of
  transactions none of which is sent by \<open>c\<close>. Once the status is \<open>Revoked\<close>,
  \<open>updateDID\<close> and \<open>revokeDID\<close> by \<open>c\<close> fail with the contract's two
  already-revoked messages, and after every sequence of transactions the record is the
  same: \<open>resolveDID\<close> reports \<open>Revoked\<close> and the cid it had. While the status is
  \<open>Active\<close>, \<open>c\<close> can update the cid and can revoke, after which \<open>resolveDID\<close>
  reports \<open>Revoked\<close> with the last cid forever.
\<close>

theorem controller_only_and_revocation_final:
  assumes "controller (dids s d) = c" and "c \<noteq> 0"
  shows
   "(sender \<noteq> c \<longrightarrow>
       updateDID s sender d newCid = Inl NotController
     \<and> revokeDID s sender d = Inl NotController
     \<and> dids (did_step dh s (sender, call)) d = dids s d)
  \<and> ((\<forall>tx \<in> set others. fst tx \<noteq> c) \<longrightarrow> dids (did_run dh s others) d = dids s d)
  \<and> (status (dids s d) = Revoked \<longrightarrow>
       updateDID s c d newCid = Inl UpdateAlreadyRevoked
     \<and> revokeDID s c d = Inl RevokeAlreadyRevoked
     \<and> dids (did_run dh s txs) d = dids s d
     \<and> resolveDID (did_run dh s txs) d = Inr (c, cid (dids s d), Revoked))
  \<and> (status (dids s d) = Active \<longrightarrow>
       (\<exists>s'. updateDID s c d newCid = Inr (s', [DIDUpdated d newCid])
          \<and> dids s' d = \<lparr>controller = c, cid = newCid, status = Active\<rparr>)
     \<and> (\<exists>s'. revokeDID s c d = Inr (s', [DIDRevoked d])
          \<and> resolveDID (did_run dh s' txs) d = Inr (c, cid (dids s d), Revoked)))"
proof (intro conjI impI)
  assume ne: "sender \<noteq> c"
  with assms show "updateDID s sender d newCid = Inl NotController"
    and "revokeDID s sender d = Inl NotController"
    by (auto simp: updateDID_def revokeDID_def NotController_def Let_def)
  from assms ne show "dids (did_step dh s (sender, call)) d = dids s d"
    by (intro did_step_foreign) auto
next
  assume "\<forall>tx \<in> set others. fst tx \<noteq> c"
  with assms show "dids (did_run dh s others) d = dids s d"
    by (intro did_run_foreign) auto
next
  assume rv: "status (dids s d) = Revoked"
  with assms show "updateDID s c d newCid = Inl UpdateAlreadyRevoked"
    and "revokeDID s c d = Inl RevokeAlreadyRevoked"
    by (auto simp: updateDID_def revokeDID_def UpdateAlreadyRevoked_def RevokeAlreadyRevoked_def Let_def)
  from assms rv show fr: "dids (did_run dh s txs) d = dids s d"
    by (intro did_run_revoked) auto
  with assms rv show "resolveDID (did_run dh s txs) d = Inr (c, cid (dids s d), Revoked)"
    by (simp add: resolveDID_def Let_def)
next
  assume ac: "status (dids s d) = Active"
  with assms show "\<exists>s'. updateDID s c d newCid = Inr (s', [DIDUpdated d newCid])
          \<and> dids s' d = \<lparr>controller = c, cid = newCid, status = Active\<rparr>"
    by (auto simp: updateDID_def Let_def)
  let ?s' = "s\<lparr>dids := (dids s)(d := (dids s d)\<lparr>status := Revoked\<rparr>)\<rparr>"
  from assms ac have r: "revokeDID s c d = Inr (?s', [DIDRevoked d])"
    by (auto simp: revokeDID_def Let_def)
  from assms have "dids (did_run dh ?s' txs) d = dids ?s' d"
    by (intro did_run_revoked) auto
  with assms have "resolveDID (did_run dh ?s' txs) d = Inr (c, cid (dids s d), Revoked)"
    by (simp add: resolveDID_def Let_def)
  with r show "\<exists>s'. revokeDID s c d = Inr (s', [DIDRevoked d])
          \<and> resolveDID (did_run dh s' txs) d = Inr (c, cid (dids s d), Revoked)"
    by blast
qed

theorem controller_only_and_revocation_final_witness:
  "updateDID did_example 4 3001 ''QmZ'' = Inl NotController
 \<and> revokeDID did_example 4 3001 = Inl NotController
 \<and> dids (did_run toyDidHash did_example
      [(4, UpdateDID 3001 ''QmZ''), (4, RevokeDID 3001), (4, CreateDID ''QmX'')]) 3001
      = \<lparr>controller = 3, cid = ''QmA'', status = Active\<rparr>
 \<and> (\<exists>s'. revokeDID did_example 3 3001 = Inr (s', [DIDRevoked 3001])
       \<and> resolveDID (did_run toyDidHash s' [(3, UpdateDID 3001 ''QmZ''), (3, CreateDID ''QmY'')]) 3001
           = Inr (3, ''QmA'', Revoked))
 \<and> updateDID (did_step toyDidHash did_example (3, RevokeDID 3001)) 3 3001 ''QmZ'' = Inl UpdateAlreadyRevoked
 \<and> revokeDID (did_step toyDidHash did_example (3, RevokeDID 3001)) 3 3001 = Inl RevokeAlreadyRevoked"
proof -
  let ?txs = "[(3, UpdateDID 3001 ''QmZ''), (3, CreateDID ''QmY'')]"
  let ?r = "did_step toyDidHash did_example (3, RevokeDID 3001)"
  have c: "controller (dids did_example 3001) = 3" and nz: "(3 :: address) \<noteq> 0"
    and ac: "status (dids did_example 3001) = Active" and ci: "cid (dids did_example 3001) = ''QmA''"
    and ne: "(4 :: address) \<noteq> 3"
    by (simp_all add: did_eval)
  have c': "controller (dids ?r 3001) = 3" and rv: "status (dids ?r 3001) = Revoked"
    by (simp_all add: did_eval)
  let ?others = "[(4 :: address, UpdateDID 3001 ''QmZ''), (4, RevokeDID 3001), (4, CreateDID ''QmX'')]"
  have fo: "\<forall>tx \<in> set ?others. fst tx \<noteq> 3" by simp
  have doc: "dids did_example 3001 = \<lparr>controller = 3, cid = ''QmA'', status = Active\<rparr>"
    by (simp add: did_eval)
  note live = controller_only_and_revocation_final
    [OF c nz, where sender = 4 and newCid = "''QmZ''" and dh = toyDidHash and txs = ?txs
       and others = ?others]
  note dead = controller_only_and_revocation_final
    [OF c' nz, where newCid = "''QmZ''" and dh = toyDidHash]
  from live fo doc have "dids (did_run toyDidHash did_example ?others) 3001
      = \<lparr>controller = 3, cid = ''QmA'', status = Active\<rparr>"
    by (simp del: did_run.simps)
  moreover from live ne ac ci have
    "updateDID did_example 4 3001 ''QmZ'' = Inl NotController"
    "revokeDID did_example 4 3001 = Inl NotController"
    "\<exists>s'. revokeDID did_example 3 3001 = Inr (s', [DIDRevoked 3001])
       \<and> resolveDID (did_run toyDidHash s' ?txs) 3001 = Inr (3, ''QmA'', Revoked)"
    by (simp_all del: did_run.simps)
  moreover from dead rv have
    "updateDID ?r 3 3001 ''QmZ'' = Inl UpdateAlreadyRevoked"
    "revokeDID ?r 3 3001 = Inl RevokeAlreadyRevoked"
    by simp_all
  ultimately show ?thesis by blast
qed

section \<open>Properties of the MerkleEngine\<close>

subsection \<open>One level up, and up to the root\<close>

lemma sortedPairHash_commute: "sortedPairHash h a b = sortedPairHash h b a"
  by (auto simp: sortedPairHash_def)

lemma sortedPairHash_min_max: "sortedPairHash h a b = h (min a b) (max a b)"
  by (auto simp: sortedPairHash_def min_def max_def)

lemma length_nextLevel: "length (nextLevel r h xs) = (length xs + 1) div 2"
  by (induction r h xs rule: nextLevel.induct) (auto split: oddRule.splits)

lemma processProof_append:
  "processProof h (ps @ qs) c = processProof h qs (processProof h ps c)"
  by (induction ps arbitrary: c) auto

lemma processProof_foldl: "processProof h ps c = foldl (sortedPairHash h) c ps"
  by (induction ps arbitrary: c) auto

lemma siblingAt_shift: "siblingAt r (a # b # rest) (Suc (Suc k)) = siblingAt r rest k"
  by (cases k; cases r) (auto simp: siblingAt_def Let_def)

lemma climb_one_level:
  "i < length level \<Longrightarrow>
   processProof h (siblingAt r level i) (level ! i) = nextLevel r h level ! (i div 2)"
proof (induction r h level arbitrary: i rule: nextLevel.induct)
  case (1 r h a b rest)
  show ?case
  proof (cases i)
    case 0
    then show ?thesis by (simp add: siblingAt_def)
  next
    case (Suc j)
    show ?thesis
    proof (cases j)
      case 0
      with Suc show ?thesis by (simp add: siblingAt_def sortedPairHash_commute)
    next
      case (Suc k)
      with \<open>i = Suc j\<close> "1.prems" have "k < length rest" by simp
      from "1.IH" [OF this] Suc \<open>i = Suc j\<close> show ?thesis
        by (simp add: siblingAt_shift)
    qed
  qed
next
  case (2 r h a)
  then show ?case by (cases r) (simp_all add: siblingAt_def)
next
  case (3 r h)
  then show ?case by simp
qed

lemma buildTree_nonempty: "buildTree r h level \<noteq> []"
  by (subst buildTree.simps) simp

lemma buildTree_leaves: "\<exists>upper. buildTree r h level = level # upper"
  by (subst buildTree.simps) simp

lemma siblingPath_Cons:
  "upper \<noteq> [] \<Longrightarrow> siblingPath r (level # upper) i = siblingAt r level i @ siblingPath r upper (i div 2)"
  by (cases upper) simp_all

lemma rootOf_Cons: "upper \<noteq> [] \<Longrightarrow> rootOf (level # upper) = rootOf upper"
  by (simp add: rootOf_def)

lemma path_reaches_root:
  "i < length level \<Longrightarrow>
   rootOf (buildTree r h level) =
     Some (processProof h (siblingPath r (buildTree r h level) i) (level ! i))"
proof (induction r h level arbitrary: i rule: buildTree.induct)
  case (1 r h level)
  show ?case
  proof (cases "length level \<le> 1")
    case True
    with "1.prems" obtain x where "level = [x]" and "i = 0"
      by (cases level) auto
    then show ?thesis
      by (simp add: buildTree.simps [of r h "[x]"] rootOf_def)
  next
    case False
    let ?next = "nextLevel r h level"
    have "i div 2 < length ?next"
      using "1.prems" by (simp add: length_nextLevel)
    from "1.IH" [OF False this]
    have ih: "rootOf (buildTree r h ?next) =
        Some (processProof h (siblingPath r (buildTree r h ?next) (i div 2)) (?next ! (i div 2)))" .
    have unfold: "buildTree r h level = level # buildTree r h ?next"
      using False by (subst buildTree.simps) simp
    show ?thesis
      using ih "1.prems"
      by (simp add: unfold rootOf_Cons siblingPath_Cons buildTree_nonempty processProof_append
          climb_one_level)
  qed
qed

lemma findLeafIndex_absent:
  "leaf \<notin> set xs \<Longrightarrow> findLeafIndex xs leaf i index = index"
  by (induction xs arbitrary: i index) auto

lemma findLeafIndex_last:
  "leaf \<in> set xs \<Longrightarrow>
   \<exists>k<length xs. xs ! k = leaf \<and> (\<forall>j. k < j \<and> j < length xs \<longrightarrow> xs ! j \<noteq> leaf)
     \<and> findLeafIndex xs leaf i index = int (i + k)"
proof (induction xs arbitrary: i index)
  case Nil
  then show ?case by simp
next
  case (Cons x xs)
  show ?case
  proof (cases "leaf \<in> set xs")
    case True
    from Cons.IH [OF True, of "Suc i" "if x = leaf then int i else index"]
    obtain k where k: "k < length xs" "xs ! k = leaf"
      "\<forall>j. k < j \<and> j < length xs \<longrightarrow> xs ! j \<noteq> leaf"
      "findLeafIndex xs leaf (Suc i) (if x = leaf then int i else index) = int (Suc i + k)"
      by blast
    have later: "\<forall>j. Suc k < j \<and> j < length (x # xs) \<longrightarrow> (x # xs) ! j \<noteq> leaf"
    proof (intro allI impI)
      fix j assume "Suc k < j \<and> j < length (x # xs)"
      then obtain j' where "j = Suc j'" "k < j'" "j' < length xs"
        by (cases j) auto
      with k(3) show "(x # xs) ! j \<noteq> leaf" by simp
    qed
    from k later show ?thesis
      by (intro exI [of _ "Suc k"]) simp
  next
    case False
    with Cons.prems have here: "x = leaf" by simp
    have later: "\<forall>j. 0 < j \<and> j < length (x # xs) \<longrightarrow> (x # xs) ! j \<noteq> leaf"
    proof (intro allI impI)
      fix j assume "0 < j \<and> j < length (x # xs)"
      then obtain j' where "j = Suc j'" "j' < length xs"
        by (cases j) auto
      with False show "(x # xs) ! j \<noteq> leaf"
        by (metis nth_Cons_Suc nth_mem)
    qed
    from here later findLeafIndex_absent [OF False] show ?thesis
      by (intro exI [of _ 0]) simp
  qed
qed

lemma proofFor_absent:
  "leaf \<notin> set leaves \<Longrightarrow> proofFor r (buildTree r h leaves) leaf = Inr []"
proof -
  assume a: "leaf \<notin> set leaves"
  obtain upper where t: "buildTree r h leaves = leaves # upper"
    using buildTree_leaves by blast
  show ?thesis
    by (simp add: proofFor_def t findLeafIndex_absent [OF a])
qed

lemma proofFor_present:
  assumes "leaf \<in> set leaves"
  shows "\<exists>k<length leaves. leaves ! k = leaf
           \<and> (\<forall>j. k < j \<and> j < length leaves \<longrightarrow> leaves ! j \<noteq> leaf)
           \<and> proofFor r (buildTree r h leaves) leaf = Inr (siblingPath r (buildTree r h leaves) k)"
proof -
  obtain upper where t: "buildTree r h leaves = leaves # upper"
    using buildTree_leaves by blast
  from findLeafIndex_last [OF assms, of 0 "- 1"]
  obtain k where k: "k < length leaves" "leaves ! k = leaf"
    "\<forall>j. k < j \<and> j < length leaves \<longrightarrow> leaves ! j \<noteq> leaf"
    "findLeafIndex leaves leaf 0 (- 1) = int k"
    by auto
  have "proofFor r (leaves # upper) leaf = Inr (siblingPath r (leaves # upper) k)"
    by (simp add: proofFor_def k(4))
  with k t show ?thesis by auto
qed

text \<open>
  C6: \<open>verifyProof\<close> is a total function of leaf, root and proof with a boolean value.
  It is true exactly when folding the sorted-pair rule \<open>hash(min || max)\<close> over the
  proof, starting from the leaf, ends in the root, and false on every mismatch. For the
  empty proof the recomputed value is the leaf itself.
\<close>

theorem verifyProof_recomputes_path:
  "verifyProof h leaf root proof =
     (foldl (\<lambda>running p. h (min running p) (max running p)) leaf proof = root)
   \<and> verifyProof h leaf root [] = (leaf = root)"
proof -
  have "sortedPairHash h = (\<lambda>running p. h (min running p) (max running p))"
    by (intro ext) (rule sortedPairHash_min_max)
  then show ?thesis
    by (simp add: verifyProof_def processProof_foldl)
qed

text \<open>
  C2: for every non-empty sequence of leaves, for every leaf present in it, and for either
  rule on odd levels, \<open>proofFor\<close> returns a proof, the tree has a root, and
  \<open>verifyProof\<close> of the leaf and this proof against this root is true. A leaf that
  occurs several times gets the proof of its last position.
\<close>

theorem proof_roundtrip_every_leaf:
  assumes "leaf \<in> set leaves"
  shows "\<exists>p root. proofFor r (buildTree r h leaves) leaf = Inr p
           \<and> rootOf (buildTree r h leaves) = Some root
           \<and> verifyProof h leaf root p"
proof -
  from proofFor_present [OF assms, of r h]
  obtain k where inb: "k < length leaves" and at: "leaves ! k = leaf"
    and p: "proofFor r (buildTree r h leaves) leaf = Inr (siblingPath r (buildTree r h leaves) k)"
    by blast
  let ?p = "siblingPath r (buildTree r h leaves) k"
  have "rootOf (buildTree r h leaves) = Some (processProof h ?p leaf)"
    using path_reaches_root [OF inb, of r h] at by simp
  with p show ?thesis
    by (simp add: verifyProof_def)
qed

text \<open>
  Three leaves, the last one unpaired, and two equal leaves; with the stand-in hash the
  root of \<open>[1, 1]\<close> is \<open>39\<close> and the proof of the leaf \<open>1\<close> is \<open>[1]\<close>.
\<close>

theorem proof_roundtrip_every_leaf_witness:
  "(30 :: bytes32) \<in> set [10, 20, 30] \<and>
   (\<exists>p root. proofFor CarryUnpaired (buildTree CarryUnpaired toyHash [10, 20, 30]) 30 = Inr p
      \<and> rootOf (buildTree CarryUnpaired toyHash [10, 20, 30]) = Some root
      \<and> verifyProof toyHash 30 root p) \<and>
   (1 :: bytes32) \<in> set [1, 1] \<and>
   (\<exists>p root. proofFor CarryUnpaired (buildTree CarryUnpaired toyHash [1, 1]) 1 = Inr p
      \<and> rootOf (buildTree CarryUnpaired toyHash [1, 1]) = Some root
      \<and> verifyProof toyHash 1 root p) \<and>
   proofFor CarryUnpaired (buildTree CarryUnpaired toyHash [1, 1]) 1 = Inr [1] \<and>
   rootOf (buildTree CarryUnpaired toyHash [1, 1]) = Some 39 \<and>
   verifyProof toyHash 1 39 [1]"
proof -
  have a: "(30 :: bytes32) \<in> set [10, 20, 30]" and b: "(1 :: bytes32) \<in> set [1, 1]"
    by simp_all
  have c: "proofFor CarryUnpaired (buildTree CarryUnpaired toyHash [1, 1]) 1 = Inr [1]"
    by (simp add: buildTree.simps proofFor_def siblingAt_def)
  have d: "rootOf (buildTree CarryUnpaired toyHash [1, 1]) = Some 39"
    by (simp add: buildTree.simps rootOf_def sortedPairHash_def toyHash_def)
  have e: "verifyProof toyHash 1 39 [1]"
    by (simp add: verifyProof_def sortedPairHash_def toyHash_def)
  from proof_roundtrip_every_leaf [OF a, of CarryUnpaired toyHash]
       proof_roundtrip_every_leaf [OF b, of CarryUnpaired toyHash] a b c d e
  show ?thesis by blast
qed

text \<open>
  C7, as the lookup is: \<open>proofFor\<close> never fails. It looks the leaf up by value; for a
  leaf that is not among the leaves of the tree it returns the empty proof, and for a
  leaf that is there, once or several times, it returns the sibling path of the leaf's
  last position.
\<close>

theorem proofFor_lookup_by_value:
  "(leaf \<notin> set leaves \<longrightarrow> proofFor r (buildTree r h leaves) leaf = Inr [])
 \<and> (leaf \<in> set leaves \<longrightarrow>
      (\<exists>k<length leaves. leaves ! k = leaf
         \<and> (\<forall>j. k < j \<and> j < length leaves \<longrightarrow> leaves ! j \<noteq> leaf)
         \<and> proofFor r (buildTree r h leaves) leaf
             = Inr (siblingPath r (buildTree r h leaves) k)))
 \<and> proofFor r (buildTree r h leaves) leaf \<noteq> Inl NotFound"
proof (intro conjI impI)
  assume "leaf \<notin> set leaves"
  then show "proofFor r (buildTree r h leaves) leaf = Inr []"
    by (rule proofFor_absent)
next
  assume "leaf \<in> set leaves"
  then show "\<exists>k<length leaves. leaves ! k = leaf
         \<and> (\<forall>j. k < j \<and> j < length leaves \<longrightarrow> leaves ! j \<noteq> leaf)
         \<and> proofFor r (buildTree r h leaves) leaf
             = Inr (siblingPath r (buildTree r h leaves) k)"
    by (rule proofFor_present)
next
  show "proofFor r (buildTree r h leaves) leaf \<noteq> Inl NotFound"
    by (simp add: proofFor_def Let_def)
qed

theorem proofFor_lookup_by_value_witness:
  "(40 :: bytes32) \<notin> set [10, 20, 30]
 \<and> proofFor CarryUnpaired (buildTree CarryUnpaired toyHash [10, 20, 30]) 40 = Inr []
 \<and> (10 :: bytes32) \<in> set [10, 20, 10]
 \<and> proofFor CarryUnpaired (buildTree CarryUnpaired toyHash [10, 20, 10]) 10
      = Inr (siblingPath CarryUnpaired (buildTree CarryUnpaired toyHash [10, 20, 10]) 2)"
proof -
  have a: "(40 :: bytes32) \<notin> set [10, 20, 30]" and b: "(10 :: bytes32) \<in> set [10, 20, 10]"
    by simp_all
  let ?xs = "[10, 20, 10 :: bytes32]"
  from proofFor_lookup_by_value [of 10 ?xs CarryUnpaired toyHash] b
  have "\<exists>k<length ?xs. ?xs ! k = 10
         \<and> (\<forall>j. k < j \<and> j < length ?xs \<longrightarrow> ?xs ! j \<noteq> 10)
         \<and> proofFor CarryUnpaired (buildTree CarryUnpaired toyHash ?xs) 10
             = Inr (siblingPath CarryUnpaired (buildTree CarryUnpaired toyHash ?xs) k)"
    by blast
  then obtain k where k: "k < length ?xs"
    "\<forall>j. k < j \<and> j < length ?xs \<longrightarrow> ?xs ! j \<noteq> 10"
    "proofFor CarryUnpaired (buildTree CarryUnpaired toyHash ?xs) 10
      = Inr (siblingPath CarryUnpaired (buildTree CarryUnpaired toyHash ?xs) k)"
    by blast
  have "k = 2"
  proof (rule ccontr)
    assume "k \<noteq> 2"
    with k(1) have "k < 2 \<and> 2 < length ?xs" by simp
    with k(2) have "?xs ! 2 \<noteq> 10" by blast
    then show False by simp
  qed
  with k(3) proofFor_lookup_by_value [of 40 "[10, 20, 30]" CarryUnpaired toyHash] a b
  show ?thesis by blast
qed

text \<open>
  C7 as stated: the leaf \<open>40\<close> is absent from \<open>[10, 20, 30]\<close> and the leaf \<open>10\<close>
  occurs twice in \<open>[10, 20, 10]\<close>; in both cases \<open>proofFor\<close> returns a proof, not
  \<open>NotFound\<close>.
\<close>

theorem proofFor_returns_for_absent_and_repeated_leaf:
  "(40 :: bytes32) \<notin> set [10, 20, 30]
 \<and> proofFor CarryUnpaired (buildTree CarryUnpaired toyHash [10, 20, 30]) 40 = Inr []
 \<and> 1 < count_list [10, 20, 10] (10 :: bytes32)
 \<and> proofFor CarryUnpaired (buildTree CarryUnpaired toyHash [10, 20, 10]) 10 = Inr [337]"
  by (simp add: buildTree.simps proofFor_def siblingAt_def sortedPairHash_def toyHash_def)

end
